theory Spec2Isabelle
  imports Main
begin

section \<open>BigInt arithmetic and exceptions\<close>

text \<open>
  The source computes over JavaScript \<open>bigint\<close> values: unbounded integers whose
  \<open>/\<close> truncates towards zero, whose \<open>%\<close> takes the sign of the dividend, and
  which raise a \<open>RangeError\<close> on a zero divisor. Every \<open>throw\<close> of the source and
  every runtime exception it can raise is a value of \<open>error\<close>; a function that can
  throw returns \<open>error + 'a\<close>.
\<close>

datatype error =
    RangeError
  | TypeError
  | NoInverseError
  | EmbeddingExhaustedError
  | InvalidPointError

text \<open>
  \<open>RangeError\<close>: BigInt division by zero. \<open>TypeError\<close>: an arithmetic operator applied
  to a BigInt and a Number. \<open>NoInverseError\<close>: the \<open>Error\<close> thrown by \<open>modInverse\<close>
  (its message says that the modular inverse does not exist).
  \<open>EmbeddingExhaustedError\<close>: the \<open>Error\<close> thrown by \<open>embedMessageKoblitz\<close>.
  \<open>InvalidPointError\<close>: the \<open>Error\<close> thrown by \<open>unembedMessageKoblitz\<close>.
\<close>

definition ebind :: "error + 'a \<Rightarrow> ('a \<Rightarrow> error + 'b) \<Rightarrow> error + 'b" where
  "ebind r f = (case r of Inl e \<Rightarrow> Inl e | Inr v \<Rightarrow> f v)"

definition tdiv :: "int \<Rightarrow> int \<Rightarrow> int" where
  "tdiv a b = sgn a * sgn b * (\<bar>a\<bar> div \<bar>b\<bar>)"

definition trem :: "int \<Rightarrow> int \<Rightarrow> int" where
  "trem a b = sgn a * (\<bar>a\<bar> mod \<bar>b\<bar>)"

definition bigint_div :: "int \<Rightarrow> int \<Rightarrow> error + int" where
  "bigint_div a b = (if b = 0 then Inl RangeError else Inr (tdiv a b))"

definition bigint_rem :: "int \<Rightarrow> int \<Rightarrow> error + int" where
  "bigint_rem a b = (if b = 0 then Inl RangeError else Inr (trem a b))"

text \<open>\<open>mod(n, p) = ((n % p) + p) % p\<close>\<close>

definition mod_bigint :: "int \<Rightarrow> int \<Rightarrow> error + int" where
  "mod_bigint n p = ebind (bigint_rem n p) (\<lambda>r. bigint_rem (r + p) p)"

subsection \<open>Facts about truncating division\<close>

lemma ebind_cong [fundef_cong]:
  "r = r' \<Longrightarrow> (\<And>v. r' = Inr v \<Longrightarrow> f v = f' v) \<Longrightarrow> ebind r f = ebind r' f'"
  by (auto simp: ebind_def split: sum.splits)

lemma abs_trem_less: "b \<noteq> 0 \<Longrightarrow> \<bar>trem a b\<bar> < \<bar>b\<bar>"
  by (simp add: trem_def abs_mult)

lemma ebind_simps [simp]:
  "ebind (Inl e) f = Inl e"
  "ebind (Inr v) f = f v"
  by (simp_all add: ebind_def)

lemma tdiv_trem: "tdiv a b * b + trem a b = a"
proof -
  have "tdiv a b * b = sgn a * ((\<bar>a\<bar> div \<bar>b\<bar>) * \<bar>b\<bar>)"
    by (simp add: tdiv_def abs_sgn mult.assoc mult.left_commute)
  then have "tdiv a b * b + trem a b = sgn a * ((\<bar>a\<bar> div \<bar>b\<bar>) * \<bar>b\<bar> + \<bar>a\<bar> mod \<bar>b\<bar>)"
    by (simp only: trem_def distrib_left)
  also have "\<dots> = sgn a * \<bar>a\<bar>" by simp
  also have "\<dots> = a" by (simp add: mult_sgn_abs)
  finally show ?thesis .
qed

lemma tdiv_nonneg [simp]: "0 \<le> a \<Longrightarrow> 0 < b \<Longrightarrow> tdiv a b = a div b"
  by (cases "a = 0") (simp_all add: tdiv_def)

lemma trem_nonneg [simp]: "0 \<le> a \<Longrightarrow> 0 < b \<Longrightarrow> trem a b = a mod b"
  by (cases "a = 0") (simp_all add: trem_def)

lemma mod_bigint_pos: "0 < p \<Longrightarrow> mod_bigint n p = Inr (n mod p)"
proof -
  assume p: "0 < p"
  have r: "trem n p + p = (if n mod p = 0 \<or> 0 \<le> n then n mod p + p else n mod p)"
  proof (cases "0 \<le> n")
    case True
    with p show ?thesis by simp
  next
    case False
    then have n: "n < 0" by simp
    have "trem n p = - ((- n) mod p)" using n p by (simp add: trem_def)
    also have "\<dots> = (if n mod p = 0 then 0 else n mod p - p)"
      using p by (simp add: zmod_zminus1_eq_if)
    finally show ?thesis using n by auto
  qed
  have nn: "0 \<le> trem n p + p"
    using abs_trem_less [of p n] p by linarith
  have "trem (trem n p + p) p = (trem n p + p) mod p"
    using nn p by simp
  also have "\<dots> = n mod p"
    using p by (simp add: r)
  finally show ?thesis
    using p by (simp add: mod_bigint_def bigint_rem_def)
qed

section \<open>Modular arithmetic helpers\<close>

text \<open>
  The \<open>while (r !== 0n)\<close> loop of \<open>modInverse\<close>, on the six loop variables; it
  returns their values at loop exit. The divisor \<open>r\<close> is non-zero inside the loop, so
  the division cannot raise.
\<close>

function modInverse_loop ::
  "int \<Rightarrow> int \<Rightarrow> int \<Rightarrow> int \<Rightarrow> int \<Rightarrow> int \<Rightarrow> int \<times> int \<times> int \<times> int \<times> int \<times> int" where
  "modInverse_loop old_r r old_s s old_t t =
     (if r \<noteq> 0 then
        (let quotient = tdiv old_r r
         in modInverse_loop r (old_r - quotient * r) s (old_s - quotient * s)
              t (old_t - quotient * t))
      else (old_r, r, old_s, s, old_t, t))"
  by pat_completeness auto
termination
proof (relation "measure (\<lambda>(old_r, r, old_s, s, old_t, t). nat \<bar>r\<bar>)")
  fix old_r r old_s s old_t t :: int and quotient :: int
  assume r: "r \<noteq> 0" and q: "quotient = tdiv old_r r"
  have "old_r - quotient * r = trem old_r r"
    using tdiv_trem [of old_r r] q by simp
  then have "\<bar>old_r - quotient * r\<bar> < \<bar>r\<bar>"
    using abs_trem_less [OF r, of old_r] by simp
  then show "((r, old_r - quotient * r, s, old_s - quotient * s, t, old_t - quotient * t),
        (old_r, r, old_s, s, old_t, t))
      \<in> measure (\<lambda>(old_r, r, old_s, s, old_t, t). nat \<bar>r\<bar>)"
    by simp
qed simp

definition modInverse :: "int \<Rightarrow> int \<Rightarrow> error + int" where
  "modInverse a m =
     (case modInverse_loop a m 1 0 0 1 of
        (old_r, r, old_s, s, old_t, t) \<Rightarrow>
          if old_r \<noteq> 1 then Inl NoInverseError else mod_bigint old_s m)"

text \<open>The \<open>while (e > 0n)\<close> loop of \<open>modPow\<close>; \<open>2n\<close> is a non-zero divisor.\<close>

function modPow_loop :: "int \<Rightarrow> int \<Rightarrow> int \<Rightarrow> int \<Rightarrow> error + int" where
  "modPow_loop res base e m =
     (if e > 0 then
        ebind (if trem e 2 = 1 then mod_bigint (res * base) m else Inr res) (\<lambda>res'.
        ebind (mod_bigint (base * base) m) (\<lambda>base'.
        modPow_loop res' base' (tdiv e 2) m))
      else Inr res)"
  by pat_completeness auto
termination
proof (relation "measure (\<lambda>(res, base, e, m). nat e)")
  fix res base e m :: int and v v' :: int
  assume "0 < e"
  then show "((v, v', tdiv e 2, m), (res, base, e, m)) \<in> measure (\<lambda>(res, base, e, m). nat e)"
    by simp
qed simp

definition modPow :: "int \<Rightarrow> int \<Rightarrow> int \<Rightarrow> error + int" where
  "modPow base exp m = ebind (mod_bigint base m) (\<lambda>base'. modPow_loop 1 base' exp m)"

text \<open>The brute-force loop \<open>for (let i = 1n; i < p; i++)\<close> of \<open>modSqrt\<close>, from \<open>i\<close> on.\<close>

function modSqrt_loop :: "int \<Rightarrow> int \<Rightarrow> int \<Rightarrow> error + int option" where
  "modSqrt_loop i a p =
     (if i < p then
        ebind (mod_bigint (i * i) p) (\<lambda>sq.
        if sq = a then Inr (Some i) else modSqrt_loop (i + 1) a p)
      else Inr None)"
  by pat_completeness auto
termination
  by (relation "measure (\<lambda>(i, a, p). nat (p - i))") auto

text \<open>\<open>null\<close> is \<open>None\<close>.\<close>

definition modSqrt :: "int \<Rightarrow> int \<Rightarrow> error + int option" where
  "modSqrt a p =
     ebind (mod_bigint a p) (\<lambda>a'.
     if trem p 4 = 3 then
       ebind (modPow a' (tdiv (p + 1) 4) p) (\<lambda>r.
       ebind (mod_bigint (r * r) p) (\<lambda>sq.
       if sq = a' then Inr (Some r) else Inr None))
     else modSqrt_loop 1 a' p)"

section \<open>Points and curves\<close>

text \<open>
  \<open>interface Point { x: bigint | null; y: bigint | null; isInfinity: boolean }\<close> and
  \<open>interface CurveParams { a; b; p; G; n }\<close>. The fields carry a prefix, since a
  constant named \<open>x\<close> or \<open>p\<close> would capture the variables of every statement.
\<close>

record Point =
  point_x :: "int option"
  point_y :: "int option"
  isInfinity :: bool

record CurveParams =
  curve_a :: int
  curve_b :: int
  curve_p :: int
  curve_G :: Point
  curve_n :: int

definition affine :: "int \<Rightarrow> int \<Rightarrow> Point" where
  "affine x y = \<lparr>point_x = Some x, point_y = Some y, isInfinity = False\<rparr>"

text \<open>The object literal \<open>{ x: null, y: null, isInfinity: true }\<close>.\<close>

definition infinity :: Point where
  "infinity = \<lparr>point_x = None, point_y = None, isInfinity = True\<rparr>"

definition TOY_CURVE :: CurveParams where
  "TOY_CURVE = \<lparr>curve_a = 1, curve_b = 6, curve_p = 11, curve_G = affine 2 4, curve_n = 13\<rparr>"

definition DEMO_CURVE :: CurveParams where
  "DEMO_CURVE = \<lparr>curve_a = 2, curve_b = 2, curve_p = 1021, curve_G = affine 5 195, curve_n = 1039\<rparr>"

section \<open>Strings and the trace callback\<close>

text \<open>
  \<open>BigInt.prototype.toString(radix)\<close> for a radix from 2 to 10; a template literal
  \<open>${v}\<close> of a bigint is \<open>toString v 10\<close>.
\<close>

definition digit_char :: "nat \<Rightarrow> char" where
  "digit_char d = ''0123456789'' ! d"

function digits_radix :: "nat \<Rightarrow> nat \<Rightarrow> string" where
  "digits_radix b n =
     (if b < 2 \<or> n < b then [digit_char n]
      else digits_radix b (n div b) @ [digit_char (n mod b)])"
  by pat_completeness auto
termination
  by (relation "measure (\<lambda>(b, n). n)") auto

definition toString :: "int \<Rightarrow> nat \<Rightarrow> string" where
  "toString k radix =
     (if k < 0 then CHR ''-'' # digits_radix radix (nat (- k)) else digits_radix radix (nat k))"

text \<open>
  The optional parameter \<open>log?: (s: string) => void\<close>. A callback returns nothing; what
  it does with a string is an update of a state \<open>'s\<close> of the caller that the engine
  never reads. \<open>log?.(msg)\<close> is \<open>call_log log msg\<close>: nothing happens when the
  parameter is omitted. The messages of the source are Chinese text around the
  interpolated numbers; they are given here by English glosses, the interpolated values
  in the same places.
\<close>

type_synonym 's logger = "(string \<Rightarrow> 's \<Rightarrow> 's) option"

definition call_log :: "'s logger \<Rightarrow> string \<Rightarrow> 's \<Rightarrow> 's" where
  "call_log log msg s = (case log of None \<Rightarrow> s | Some f \<Rightarrow> f msg s)"

definition msg_vertical :: string where
  "msg_vertical = ''P + Q = point at infinity (vertical line)''"

definition msg_double :: "int \<Rightarrow> int \<Rightarrow> int \<Rightarrow> int \<Rightarrow> int \<Rightarrow> int \<Rightarrow> int \<Rightarrow> string" where
  "msg_double x1 a y1 num den p lambda =
     ''doubling P: lambda = (3*'' @ toString x1 10 @ ''^2 + '' @ toString a 10 @ '') / (2*''
       @ toString y1 10 @ '') = '' @ toString num 10 @ '' * '' @ toString den 10
       @ '' mod '' @ toString p 10 @ '' = '' @ toString lambda 10"

definition msg_add :: "int \<Rightarrow> int \<Rightarrow> int \<Rightarrow> int \<Rightarrow> int \<Rightarrow> int \<Rightarrow> int \<Rightarrow> int \<Rightarrow> string" where
  "msg_add y2 y1 x2 x1 num den p lambda =
     ''adding P+Q: lambda = ('' @ toString y2 10 @ '' - '' @ toString y1 10 @ '') / (''
       @ toString x2 10 @ '' - '' @ toString x1 10 @ '') = '' @ toString num 10 @ '' * ''
       @ toString den 10 @ '' mod '' @ toString p 10 @ '' = '' @ toString lambda 10"

definition msg_result :: "int \<Rightarrow> int \<Rightarrow> string" where
  "msg_result x3 y3 = ''result: ('' @ toString x3 10 @ '', '' @ toString y3 10 @ '')''"

definition msg_multiply :: "int \<Rightarrow> string \<Rightarrow> string" where
  "msg_multiply k bits = ''scalar multiplication: k='' @ toString k 10 @ '' (binary: '' @ bits @ '')''"

definition msg_bit :: "nat \<Rightarrow> string" where
  "msg_bit e = ''bit 2^'' @ toString (int e) 10 @ '' is 1. Adding the current point N to the result.''"

definition msg_next :: string where
  "msg_next = ''Doubling N for the next bit.''"

section \<open>Point arithmetic\<close>

text \<open>
  \<open>pointAdd(P, Q, curve, log?)\<close>. The guard \<open>!P.x || !P.y || !Q.x || !Q.y\<close> holds for
  a coordinate that is \<open>null\<close> and for one that is \<open>0n\<close> (both are falsy); past it
  the four coordinates are non-zero bigints. The result is paired with the caller's
  state after the calls of \<open>log\<close>; a call that throws leaves the state as the calls
  made before the throw left it.
\<close>

definition pointAdd_log ::
  "Point \<Rightarrow> Point \<Rightarrow> CurveParams \<Rightarrow> 's logger \<Rightarrow> 's \<Rightarrow> (error + Point) \<times> 's" where
  "pointAdd_log P Q curve log s =
     (if isInfinity P then (Inr Q, s)
      else if isInfinity Q then (Inr P, s)
      else
        (case (point_x P, point_y P, point_x Q, point_y Q) of
           (Some x1, Some y1, Some x2, Some y2) \<Rightarrow>
             if x1 = 0 \<or> y1 = 0 \<or> x2 = 0 \<or> y2 = 0 then (Inr infinity, s)
             else
               let p = curve_p curve; a = curve_a curve in
               if x1 = x2 \<and> y1 \<noteq> y2 then (Inr infinity, call_log log msg_vertical s)
               else
                 (case
                    (if x1 = x2 \<and> y1 = y2 then
                       if y1 = 0 then Inr None
                       else
                         ebind (mod_bigint (3 * x1 * x1 + a) p) (\<lambda>num.
                         ebind (modInverse (2 * y1) p) (\<lambda>den.
                         ebind (mod_bigint (num * den) p) (\<lambda>lambda.
                         Inr (Some (lambda, msg_double x1 a y1 num den p lambda)))))
                     else
                       ebind (mod_bigint (y2 - y1) p) (\<lambda>num.
                       ebind (mod_bigint (x2 - x1) p) (\<lambda>dx.
                       ebind (modInverse dx p) (\<lambda>den.
                       ebind (mod_bigint (num * den) p) (\<lambda>lambda.
                       Inr (Some (lambda, msg_add y2 y1 x2 x1 num den p lambda)))))))
                  of
                    Inl e \<Rightarrow> (Inl e, s)
                  | Inr None \<Rightarrow> (Inr infinity, s)
                  | Inr (Some (lambda, msg)) \<Rightarrow>
                      let s1 = call_log log msg s in
                      (case
                         ebind (mod_bigint (lambda * lambda - x1 - x2) p) (\<lambda>x3.
                         ebind (mod_bigint (lambda * (x1 - x3) - y1) p) (\<lambda>y3.
                         Inr (x3, y3)))
                       of
                         Inl e \<Rightarrow> (Inl e, s1)
                       | Inr (x3, y3) \<Rightarrow> (Inr (affine x3 y3), call_log log (msg_result x3 y3) s1)))
         | _ \<Rightarrow> (Inr infinity, s)))"

text \<open>\<open>pointAdd(P, Q, curve)\<close>, the callback omitted.\<close>

definition pointAdd :: "Point \<Rightarrow> Point \<Rightarrow> CurveParams \<Rightarrow> error + Point" where
  "pointAdd P Q curve = fst (pointAdd_log P Q curve None ())"

text \<open>
  The loop of \<open>pointMultiply\<close> reads \<open>bits\<close> from its last character to its first:
  the first argument is what is left of the reversed string, \<open>e\<close> is
  \<open>bits.length - 1 - i\<close>. The two calls of \<open>pointAdd\<close> in the loop pass no callback.
\<close>

fun pointMultiply_loop ::
  "string \<Rightarrow> nat \<Rightarrow> Point \<Rightarrow> Point \<Rightarrow> CurveParams \<Rightarrow> 's logger \<Rightarrow> 's \<Rightarrow> (error + Point) \<times> 's" where
  "pointMultiply_loop [] e R N curve log s = (Inr R, s)"
| "pointMultiply_loop (c # cs) e R N curve log s =
     (let s1 = (if c = CHR ''1'' then call_log log (msg_bit e) s else s) in
      case (if c = CHR ''1'' then pointAdd R N curve else Inr R) of
        Inl err \<Rightarrow> (Inl err, s1)
      | Inr R' \<Rightarrow>
          let s2 = call_log log msg_next s1 in
          (case pointAdd N N curve of
             Inl err \<Rightarrow> (Inl err, s2)
           | Inr N' \<Rightarrow> pointMultiply_loop cs (Suc e) R' N' curve log s2))"

definition pointMultiply_log ::
  "int \<Rightarrow> Point \<Rightarrow> CurveParams \<Rightarrow> 's logger \<Rightarrow> 's \<Rightarrow> (error + Point) \<times> 's" where
  "pointMultiply_log k P curve log s =
     (let bits = toString k 2;
          s0 = call_log log (msg_multiply k bits) s
      in pointMultiply_loop (rev bits) 0 infinity P curve log s0)"

definition pointMultiply :: "int \<Rightarrow> Point \<Rightarrow> CurveParams \<Rightarrow> error + Point" where
  "pointMultiply k P curve = fst (pointMultiply_log k P curve None ())"

section \<open>Message embedding\<close>

definition isValidX :: "int \<Rightarrow> CurveParams \<Rightarrow> error + (bool \<times> int option)" where
  "isValidX x curve =
     ebind (mod_bigint (x ^ 3 + curve_a curve * x + curve_b curve) (curve_p curve)) (\<lambda>rhs.
     ebind (modSqrt rhs (curve_p curve)) (\<lambda>y.
     Inr (y \<noteq> None, y)))"

text \<open>The loop \<open>for (let j = 0n; j < K; j++)\<close> of \<open>embedMessageKoblitz\<close>, from \<open>j\<close> on.\<close>

function embedMessageKoblitz_loop :: "int \<Rightarrow> int \<Rightarrow> CurveParams \<Rightarrow> int \<Rightarrow> error + Point" where
  "embedMessageKoblitz_loop j message curve K =
     (if j < K then
        (let x = message * K + j in
         ebind (isValidX x curve) (\<lambda>(valid, y).
         if valid \<and> y \<noteq> None
         then Inr \<lparr>point_x = Some x, point_y = y, isInfinity = False\<rparr>
         else embedMessageKoblitz_loop (j + 1) message curve K))
      else Inl EmbeddingExhaustedError)"
  by pat_completeness auto
termination
  by (relation "measure (\<lambda>(j, message, curve, K). nat (K - j))") auto

definition embedMessageKoblitz :: "int \<Rightarrow> CurveParams \<Rightarrow> int \<Rightarrow> error + Point" where
  "embedMessageKoblitz message curve K = embedMessageKoblitz_loop 0 message curve K"

definition unembedMessageKoblitz :: "Point \<Rightarrow> int \<Rightarrow> error + int" where
  "unembedMessageKoblitz P K =
     (if isInfinity P then Inl InvalidPointError
      else case point_x P of None \<Rightarrow> Inl InvalidPointError | Some x \<Rightarrow> bigint_div x K)"

section \<open>The ElGamal demonstration\<close>

text \<open>
  The state of the \<open>EncryptionDemo\<close> component that its handlers compute with (the
  \<open>useState\<close> cells; the three lists of log lines, which are only displayed, are left
  out). A handler takes the state and returns the state after its setters; one that
  throws returns the exception.
\<close>

datatype embedding = koblitz | direct

record demo_state =
  privKey :: int
  pubKey :: "Point option"
  embeddingMethod :: embedding
  embeddedPoint :: "Point option"
  randomK :: int
  cipherC1 :: "Point option"
  cipherC2 :: "Point option"
  decryptedPoint :: "Point option"
  decryptedMsg :: string

text \<open>\<open>generateKeys\<close> catches what \<open>pointMultiply\<close> throws and leaves the state as it is.\<close>

definition generateKeys :: "CurveParams \<Rightarrow> demo_state \<Rightarrow> demo_state" where
  "generateKeys curve st =
     (case pointMultiply (privKey st) (curve_G curve) curve of
        Inl e \<Rightarrow> st
      | Inr pub \<Rightarrow> st\<lparr>pubKey := Some pub\<rparr>)"

definition handleEncrypt :: "CurveParams \<Rightarrow> demo_state \<Rightarrow> error + demo_state" where
  "handleEncrypt curve st =
     (case (embeddedPoint st, pubKey st) of
        (Some Pm, Some Q) \<Rightarrow>
          ebind (pointMultiply (randomK st) (curve_G curve) curve) (\<lambda>c1.
          ebind (pointMultiply (randomK st) Q curve) (\<lambda>S.
          ebind (pointAdd Pm S curve) (\<lambda>c2.
          Inr (st\<lparr>cipherC1 := Some c1, cipherC2 := Some c2\<rparr>))))
      | _ \<Rightarrow> Inr st)"

text \<open>
  In \<open>handleDecrypt\<close>, \<open>-S.y!\<close> on a \<open>null\<close> coordinate is the Number \<open>-0\<close>, and
  \<open>mod\<close> then applies \<open>%\<close> to a Number and a BigInt: a \<open>TypeError\<close>. The handler has
  no \<open>try\<close>; \<open>setDecryptedPoint(M)\<close> has run when \<open>unembedMessageKoblitz\<close> throws,
  which the model does not keep (it returns the exception alone).
\<close>

definition handleDecrypt :: "CurveParams \<Rightarrow> demo_state \<Rightarrow> error + demo_state" where
  "handleDecrypt curve st =
     (case (cipherC1 st, cipherC2 st) of
        (Some C1, Some C2) \<Rightarrow>
          ebind (pointMultiply (privKey st) C1 curve) (\<lambda>S.
          ebind (case point_y S of None \<Rightarrow> Inl TypeError
                 | Some y \<Rightarrow> mod_bigint (- y) (curve_p curve)) (\<lambda>ny.
          let negS = \<lparr>point_x = point_x S, point_y = Some ny, isInfinity = isInfinity S\<rparr> in
          ebind (pointAdd C2 negS curve) (\<lambda>M.
          case embeddingMethod st of
            koblitz \<Rightarrow>
              ebind (unembedMessageKoblitz M 20) (\<lambda>m.
              Inr (st\<lparr>decryptedPoint := Some M, decryptedMsg := toString m 10\<rparr>))
          | direct \<Rightarrow>
              Inr (st\<lparr>decryptedPoint := Some M,
                       decryptedMsg := (case point_x M of None \<Rightarrow> [] | Some x \<Rightarrow> toString x 10)\<rparr>))))
      | _ \<Rightarrow> Inr st)"

text \<open>The initial values of the \<open>useState\<close> cells.\<close>

definition initial_state :: demo_state where
  "initial_state =
     \<lparr>privKey = 15, pubKey = None, embeddingMethod = koblitz, embeddedPoint = None,
      randomK = 7, cipherC1 = None, cipherC2 = None, decryptedPoint = None, decryptedMsg = []\<rparr>"

section \<open>Predicates of the specification\<close>

text \<open>A point whose two coordinates are field elements, that is integers of \<open>[0, p)\<close>.\<close>

definition in_field :: "int \<Rightarrow> Point \<Rightarrow> bool" where
  "in_field p R =
     (case (point_x R, point_y R) of
        (Some x, Some y) \<Rightarrow> 0 \<le> x \<and> x < p \<and> 0 \<le> y \<and> y < p
      | _ \<Rightarrow> False)"

text \<open>What \<open>pointMultiply\<close> started from \<open>P0\<close> holds in its variables \<open>R\<close> and \<open>N\<close>.\<close>

definition reduced_or :: "Point \<Rightarrow> int \<Rightarrow> Point \<Rightarrow> bool" where
  "reduced_or P0 p X = (X = P0 \<or> isInfinity X \<or> in_field p X)"

text \<open>Primality of the modulus, by trial division.\<close>

definition is_prime :: "int \<Rightarrow> bool" where
  "is_prime p = (1 < p \<and> list_all (\<lambda>d. \<not> d dvd p) [2..p - 1])"

text \<open>A point of the curve: the point at infinity, or field elements that satisfy the equation.\<close>

definition on_curve :: "CurveParams \<Rightarrow> Point \<Rightarrow> bool" where
  "on_curve curve P =
     (isInfinity P \<or>
      (case (point_x P, point_y P) of
         (Some x, Some y) \<Rightarrow>
           in_field (curve_p curve) P
           \<and> (y * y) mod curve_p curve = (x ^ 3 + curve_a curve * x + curve_b curve) mod curve_p curve
       | _ \<Rightarrow> False))"

text \<open>
  The chord/tangent law in the words of the specification, to compare \<open>pointAdd\<close> with:
  \<open>d\<^sup>-\<^sup>1\<close> is the field element whose product with \<open>d\<close> is \<open>1\<close> modulo \<open>p\<close>, found by
  search; \<open>\<lambda> = (3x\<^sub>1\<^sup>2 + a) (2y\<^sub>1)\<^sup>-\<^sup>1\<close> when \<open>P = Q\<close> and \<open>(y\<^sub>2 - y\<^sub>1) (x\<^sub>2 - x\<^sub>1)\<^sup>-\<^sup>1\<close>
  otherwise; \<open>x\<^sub>3 = \<lambda>\<^sup>2 - x\<^sub>1 - x\<^sub>2\<close>, \<open>y\<^sub>3 = \<lambda> (x\<^sub>1 - x\<^sub>3) - y\<^sub>1\<close>, all modulo \<open>p\<close>.
\<close>

definition field_inverse :: "int \<Rightarrow> int \<Rightarrow> int option" where
  "field_inverse d p = List.find (\<lambda>i. (d * i) mod p = 1) [0..p - 1]"

definition chord_tangent :: "CurveParams \<Rightarrow> Point \<Rightarrow> Point \<Rightarrow> Point option" where
  "chord_tangent curve P Q =
     (case (point_x P, point_y P, point_x Q, point_y Q) of
        (Some x1, Some y1, Some x2, Some y2) \<Rightarrow>
          (let p = curve_p curve in
           case (if P = Q
                 then map_option (\<lambda>i. ((3 * x1\<^sup>2 + curve_a curve) * i) mod p) (field_inverse (2 * y1) p)
                 else map_option (\<lambda>i. ((y2 - y1) * i) mod p) (field_inverse (x2 - x1) p)) of
             None \<Rightarrow> None
           | Some lambda \<Rightarrow>
               (let x3 = (lambda\<^sup>2 - x1 - x2) mod p; y3 = (lambda * (x1 - x3) - y1) mod p
                in Some (affine x3 y3)))
      | _ \<Rightarrow> None)"

text \<open>
  The thirteen points of \<open>TOY_CURVE\<close>, the \<open>i\<close>-th being \<open>i G\<close>; \<open>toy_pt\<close> reads the
  list modulo the group order.
\<close>

definition toy_points :: "Point list" where
  "toy_points =
     [infinity, affine 2 4, affine 5 9, affine 8 8, affine 10 9, affine 3 5, affine 7 2,
      affine 7 9, affine 3 6, affine 10 2, affine 8 3, affine 5 2, affine 2 7]"

definition toy_pt :: "nat \<Rightarrow> Point" where
  "toy_pt i = toy_points ! (i mod 13)"

text \<open>
  A third curve, beside the two presets: \<open>y\<^sup>2 = x\<^sup>3 + x + 5 (mod 11)\<close>, a group of prime
  order 11 generated by \<open>G = (2, 2)\<close>, with \<open>3G = (0, 7)\<close> and \<open>8G = (0, 4)\<close>.
\<close>

definition SMALL_CURVE :: CurveParams where
  "SMALL_CURVE = \<lparr>curve_a = 1, curve_b = 5, curve_p = 11, curve_G = affine 2 2, curve_n = 11\<rparr>"

section \<open>Simplifier setup\<close>

text \<open>
  The loops are single recursive equations; they are unfolded by hand, at the argument
  in question.
\<close>

declare modInverse_loop.simps [simp del]
declare modPow_loop.simps [simp del]
declare modSqrt_loop.simps [simp del]
declare digits_radix.simps [simp del]
declare embedMessageKoblitz_loop.simps [simp del]

lemmas eval_pointAdd =
  pointAdd_def pointAdd_log_def affine_def infinity_def mod_bigint_pos modInverse_def
  modInverse_loop.simps Let_def call_log_def

lemmas eval_pointMultiply =
  pointMultiply_def pointMultiply_log_def toString_def digits_radix.simps digit_char_def

section \<open>The modular inverse of a non-negative number\<close>

lemma modInverse_loop_nonneg:
  "0 \<le> old_r \<Longrightarrow> 0 \<le> r \<Longrightarrow>
   old_r = a * old_s + m * old_t \<Longrightarrow> r = a * s + m * t \<Longrightarrow>
   modInverse_loop old_r r old_s s old_t t = (g, r', u, s', v, t') \<Longrightarrow>
   g = gcd old_r r \<and> g = a * u + m * v"
proof (induction old_r r old_s s old_t t rule: modInverse_loop.induct)
  case (1 old_r r old_s s old_t t)
  show ?case
  proof (cases "r = 0")
    case True
    have "modInverse_loop old_r 0 old_s s old_t t = (old_r, 0, old_s, s, old_t, t)"
      by (simp add: modInverse_loop.simps [of old_r])
    with "1.prems"(5) True have "g = old_r" "u = old_s" "v = old_t" by simp_all
    with "1.prems"(1,3) True show ?thesis by simp
  next
    case False
    then have rpos: "0 < r" using "1.prems"(2) by simp
    let ?q = "tdiv old_r r"
    have rem: "old_r - ?q * r = old_r mod r"
      using "1.prems"(1) rpos by (simp add: minus_div_mult_eq_mod)
    then have nn: "0 \<le> old_r - ?q * r"
      using rpos by simp
    have bez: "old_r - ?q * r = a * (old_s - ?q * s) + m * (old_t - ?q * t)"
    proof -
      have "old_r - ?q * r = (a * old_s + m * old_t) - ?q * (a * s + m * t)"
        using "1.prems"(3,4) by simp
      also have "\<dots> = a * (old_s - ?q * s) + m * (old_t - ?q * t)"
        by (simp add: algebra_simps)
      finally show ?thesis .
    qed
    have step: "modInverse_loop r (old_r - ?q * r) s (old_s - ?q * s) t (old_t - ?q * t)
        = (g, r', u, s', v, t')"
      using "1.prems"(5) False
      by (simp add: modInverse_loop.simps [of old_r] Let_def)
    from "1.IH" [OF False refl "1.prems"(2) nn "1.prems"(4) bez step]
    have "g = gcd r (old_r - ?q * r) \<and> g = a * u + m * v" .
    then show ?thesis
      using gcd_red_int [of old_r r] by (simp add: rem)
  qed
qed

lemma modInverse_nonneg_coprime:
  assumes a: "0 \<le> a" and m: "1 < m" and g: "gcd a m = 1"
  shows "\<exists>x. modInverse a m = Inr x \<and> 0 \<le> x \<and> x < m \<and> (a * x) mod m = 1"
proof -
  obtain g' r' u s' v t' where l: "modInverse_loop a m 1 0 0 1 = (g', r', u, s', v, t')"
    by (metis prod_cases6)
  from modInverse_loop_nonneg [of a m a 1 m 0 0 1, OF a _ _ _ l] m
  have g': "g' = gcd a m" "g' = a * u + m * v" by simp_all
  have "a * (u mod m) mod m = (a * u) mod m"
    by (simp add: mod_mult_right_eq)
  also have "a * u = 1 - m * v" using g' g by simp
  also have "(1 - m * v) mod m = 1 mod m"
    by (metis minus_mult_div_eq_mod mod_mult_self1_is_0 diff_zero mod_diff_right_eq mult.commute)
  also have "\<dots> = 1" using m by simp
  finally have inv: "a * (u mod m) mod m = 1" .
  have "modInverse a m = Inr (u mod m)"
    using l g' g m by (simp add: modInverse_def mod_bigint_pos)
  then show ?thesis using inv m by simp
qed

lemma modInverse_nonneg_not_coprime:
  assumes a: "0 \<le> a" and m: "1 < m" and g: "gcd a m \<noteq> 1"
  shows "modInverse a m = Inl NoInverseError"
proof -
  obtain g' r' u s' v t' where l: "modInverse_loop a m 1 0 0 1 = (g', r', u, s', v, t')"
    by (metis prod_cases6)
  from modInverse_loop_nonneg [of a m a 1 m 0 0 1, OF a _ _ _ l] m
  have "g' = gcd a m" by simp
  then show ?thesis using l g by (simp add: modInverse_def)
qed

lemma inverse_mod_unique:
  assumes m: "1 < (m::int)" and x: "0 \<le> x" "x < m" "(a * x) mod m = 1"
    and y: "0 \<le> y" "y < m" "(a * y) mod m = 1"
  shows "x = y"
proof -
  have "x mod m = (x * ((a * y) mod m)) mod m" using y m by simp
  also have "\<dots> = (x * (a * y)) mod m" by (simp add: mod_mult_right_eq)
  also have "\<dots> = ((a * x) * y) mod m"
    by (simp add: mult.assoc mult.left_commute)
  also have "\<dots> = (((a * x) mod m) * y) mod m"
    by (simp add: mod_mult_left_eq)
  also have "\<dots> = y mod m" using x by simp
  finally show ?thesis using x y by simp
qed

lemma inverse_mod_coprime:
  assumes "(a * x) mod m = (1::int)" "1 < m"
  shows "gcd a m = 1"
proof -
  have "gcd a m dvd a * x" by simp
  moreover have "gcd a m dvd m" by simp
  ultimately have "gcd a m dvd (a * x) mod m"
    by (simp add: dvd_mod)
  then have "gcd a m dvd 1" using assms by simp
  then show ?thesis by simp
qed

section \<open>The modular square root\<close>

lemma modSqrt_loop_sound:
  "0 < p \<Longrightarrow> modSqrt_loop i a p = Inr (Some r) \<Longrightarrow> i \<le> r \<and> r < p \<and> (r * r) mod p = a"
proof (induction i a p rule: modSqrt_loop.induct)
  case (1 i a p)
  show ?case
  proof (cases "i < p")
    case False
    with "1.prems" show ?thesis by (simp add: modSqrt_loop.simps [of i])
  next
    case True
    show ?thesis
    proof (cases "(i * i) mod p = a")
      case True
      with "1.prems" \<open>i < p\<close> show ?thesis
        by (simp add: modSqrt_loop.simps [of i] mod_bigint_pos)
    next
      case False
      with "1.prems" \<open>i < p\<close> have "modSqrt_loop (i + 1) a p = Inr (Some r)"
        by (simp add: modSqrt_loop.simps [of i] mod_bigint_pos)
      from "1.IH" [OF \<open>i < p\<close> _ False "1.prems"(1) this] "1.prems"(1)
      show ?thesis by (simp add: mod_bigint_pos)
    qed
  qed
qed

lemma modSqrt_loop_complete:
  "0 < p \<Longrightarrow> i \<le> r \<Longrightarrow> r < p \<Longrightarrow> (r * r) mod p = a \<Longrightarrow>
   \<exists>r'. modSqrt_loop i a p = Inr (Some r')"
proof (induction i a p rule: modSqrt_loop.induct)
  case (1 i a p)
  have ip: "i < p" using "1.prems" by simp
  show ?case
  proof (cases "(i * i) mod p = a")
    case True
    with "1.prems" ip show ?thesis
      by (simp add: modSqrt_loop.simps [of i] mod_bigint_pos)
  next
    case False
    with "1.prems" have "i \<noteq> r" by auto
    with "1.prems" have "i + 1 \<le> r" by simp
    from "1.IH" [OF ip _ False "1.prems"(1) this "1.prems"(3,4)] "1.prems"(1)
    obtain r' where "modSqrt_loop (i + 1) a p = Inr (Some r')"
      by (auto simp: mod_bigint_pos)
    with False ip "1.prems"(1) show ?thesis
      by (simp add: modSqrt_loop.simps [of i] mod_bigint_pos)
  qed
qed

lemma modSqrt_sound:
  assumes p: "0 < p" and r: "modSqrt a p = Inr (Some r)"
  shows "(r * r) mod p = a mod p"
proof (cases "trem p 4 = 3")
  case True
  with r p show ?thesis
    by (auto simp: modSqrt_def mod_bigint_pos ebind_def split: sum.splits if_splits)
next
  case False
  with r p have "modSqrt_loop 1 (a mod p) p = Inr (Some r)"
    by (simp add: modSqrt_def mod_bigint_pos)
  from modSqrt_loop_sound [OF p this] show ?thesis by simp
qed

lemma modSqrt_brute_force_complete:
  assumes p: "0 < p" and slow: "trem p 4 \<noteq> 3"
    and r: "(r * r) mod p = a mod p" and nz: "a mod p \<noteq> 0"
  shows "\<exists>r'. modSqrt a p = Inr (Some r')"
proof -
  have sq: "((r mod p) * (r mod p)) mod p = a mod p"
    using r by (simp add: mod_mult_eq)
  have "r mod p \<noteq> 0" using sq nz by auto
  moreover have "0 \<le> r mod p" "r mod p < p"
    using p by simp_all
  ultimately have "1 \<le> r mod p" "r mod p < p"
    by linarith+
  from modSqrt_loop_complete [OF p this sq] slow p show ?thesis
    by (simp add: modSqrt_def mod_bigint_pos)
qed

section \<open>Koblitz embedding\<close>

lemma embedMessageKoblitz_loop_x:
  "embedMessageKoblitz_loop j message curve K = Inr P \<Longrightarrow>
   \<exists>j'. j \<le> j' \<and> j' < K \<and> point_x P = Some (message * K + j') \<and> \<not> isInfinity P"
proof (induction j message curve K rule: embedMessageKoblitz_loop.induct)
  case (1 j message curve K)
  show ?case
  proof (cases "j < K")
    case False
    with "1.prems" show ?thesis
      by (simp add: embedMessageKoblitz_loop.simps [of j])
  next
    case True
    obtain valid y where v: "isValidX (message * K + j) curve = Inr (valid, y)"
      using "1.prems" True
      by (cases "isValidX (message * K + j) curve")
        (auto simp: embedMessageKoblitz_loop.simps [of j])
    show ?thesis
    proof (cases "valid \<and> y \<noteq> None")
      case True
      with "1.prems" \<open>j < K\<close> v show ?thesis
        by (auto simp: embedMessageKoblitz_loop.simps [of j])
    next
      case False
      with "1.prems" \<open>j < K\<close> v
      have "embedMessageKoblitz_loop (j + 1) message curve K = Inr P"
        by (auto simp: embedMessageKoblitz_loop.simps [of j])
      from "1.IH" [OF \<open>j < K\<close> refl v refl False this]
      show ?thesis by force
    qed
  qed
qed

lemma tdiv_koblitz: "0 \<le> m \<Longrightarrow> 0 \<le> j \<Longrightarrow> j < K \<Longrightarrow> tdiv (m * K + j) K = m"
proof -
  assume m: "0 \<le> m" and j: "0 \<le> j" "j < K"
  then have K: "0 < K" by simp
  have "0 \<le> m * K + j" using m j K by simp
  then have "tdiv (m * K + j) K = (m * K + j) div K"
    using K by simp
  also have "\<dots> = m" using j K by simp
  finally show ?thesis .
qed

text \<open>
  C4. Whenever \<open>embedMessageKoblitz\<close> returns a point for a message \<open>m \<ge> 0\<close> (for any
  curve and any padding factor \<open>K\<close>), \<open>unembedMessageKoblitz\<close> with the same \<open>K\<close>
  returns \<open>m\<close>: the point's \<open>x\<close> is \<open>m * K + j\<close> with \<open>0 \<le> j < K\<close>, and the
  truncating division by \<open>K\<close> gives \<open>m\<close> back.
\<close>

theorem koblitz_round_trip:
  "embedMessageKoblitz m curve K = Inr P \<Longrightarrow> 0 \<le> m \<Longrightarrow> unembedMessageKoblitz P K = Inr m"
proof -
  assume e: "embedMessageKoblitz m curve K = Inr P" and m: "0 \<le> m"
  from embedMessageKoblitz_loop_x [OF e [unfolded embedMessageKoblitz_def]]
  obtain j where j: "0 \<le> j" "j < K" "point_x P = Some (m * K + j)" "\<not> isInfinity P"
    by blast
  have "K \<noteq> 0" using j by auto
  then show ?thesis
    using j tdiv_koblitz [OF m j(1) j(2)]
    by (simp add: unembedMessageKoblitz_def bigint_div_def)
qed

lemma embed_toy_1: "embedMessageKoblitz 1 TOY_CURVE 20 = Inr (affine 21 9)"
  by (simp add: embedMessageKoblitz_def embedMessageKoblitz_loop.simps isValidX_def TOY_CURVE_def
      mod_bigint_pos modSqrt_def modPow_def modPow_loop.simps affine_def)

theorem koblitz_round_trip_witness:
  "embedMessageKoblitz 1 TOY_CURVE 20 = Inr (affine 21 9) \<and> (0::int) \<le> 1
   \<and> unembedMessageKoblitz (affine 21 9) 20 = Inr 1"
  using koblitz_round_trip [OF embed_toy_1] embed_toy_1 by simp

section \<open>Point addition: identity, guard and range of the results\<close>

lemma pointAdd_infinity_left: "isInfinity P \<Longrightarrow> pointAdd P Q curve = Inr Q"
  by (simp add: pointAdd_def pointAdd_log_def)

lemma pointAdd_infinity_right: "\<not> isInfinity P \<Longrightarrow> isInfinity Q \<Longrightarrow> pointAdd P Q curve = Inr P"
  by (simp add: pointAdd_def pointAdd_log_def)

lemma toString_small: "toString 2 2 = ''10''" "toString 1 2 = ''1''" "toString 0 2 = ''0''"
  by (simp_all add: toString_def digits_radix.simps digit_char_def)

lemma toy_add_example: "pointAdd (affine 2 4) (affine 5 9) TOY_CURVE = Inr (affine 8 8)"
  by (simp add: pointAdd_def pointAdd_log_def affine_def TOY_CURVE_def mod_bigint_pos
      modInverse_def modInverse_loop.simps Let_def call_log_def)

lemma toy_double: "pointAdd (affine 2 4) (affine 2 4) TOY_CURVE = Inr (affine 5 9)"
  by (simp add: pointAdd_def pointAdd_log_def affine_def TOY_CURVE_def mod_bigint_pos
      modInverse_def modInverse_loop.simps Let_def call_log_def)

lemma toy_double_2G: "pointAdd (affine 5 9) (affine 5 9) TOY_CURVE = Inr (affine 10 9)"
  by (simp add: pointAdd_def pointAdd_log_def affine_def TOY_CURVE_def mod_bigint_pos
      modInverse_def modInverse_loop.simps Let_def call_log_def)

lemma toy_multiply_2: "pointMultiply 2 (affine 2 4) TOY_CURVE = Inr (affine 5 9)"
  by (simp add: pointMultiply_def pointMultiply_log_def toString_small Let_def call_log_def
      toy_double toy_double_2G pointAdd_infinity_left infinity_def)

text \<open>
  C9, as stated, fails where the other argument is the point at infinity: the two
  identity tests come before the guard, and \<open>pointAdd((0, 3), \<infinity>)\<close> is \<open>(0, 3)\<close>.
\<close>

theorem pointAdd_zero_coordinate_counterexample:
  "\<not> isInfinity (affine 0 3) \<and> point_x (affine 0 3) = Some 0
   \<and> pointAdd (affine 0 3) infinity TOY_CURVE = Inr (affine 0 3)
   \<and> affine 0 3 \<noteq> infinity"
  by (simp add: pointAdd_def pointAdd_log_def affine_def infinity_def)

text \<open>
  C9, amended. When neither argument of \<open>pointAdd\<close> is the point at infinity and one of
  the four coordinates is \<open>0\<close>, \<open>pointAdd\<close> returns the point at infinity at the guard:
  it throws nothing and calls the callback not once (the vertical-chord test and the
  two formulas each end in a call of it), whatever the curve.
\<close>

theorem pointAdd_zero_coordinate:
  "\<not> isInfinity P \<Longrightarrow> \<not> isInfinity Q \<Longrightarrow>
   point_x P = Some 0 \<or> point_y P = Some 0 \<or> point_x Q = Some 0 \<or> point_y Q = Some 0 \<Longrightarrow>
   pointAdd_log P Q curve log s = (Inr infinity, s)"
  by (auto simp: pointAdd_log_def split: option.split)

theorem pointAdd_zero_coordinate_witness:
  "\<not> isInfinity (affine 0 7) \<and> \<not> isInfinity (affine 2 2) \<and> point_x (affine 0 7) = Some 0
   \<and> pointAdd_log (affine 0 7) (affine 2 2) TOY_CURVE (Some (\<lambda>m t. m # t)) [] = (Inr infinity, [])"
  using pointAdd_zero_coordinate [of "affine 0 7" "affine 2 2" TOY_CURVE "Some (\<lambda>m t. m # t)" "[]"]
  by (simp add: affine_def)

lemma pointAdd_guard:
  "\<not> isInfinity P \<Longrightarrow> \<not> isInfinity Q \<Longrightarrow>
   point_x P = None \<or> point_x P = Some 0 \<or> point_y P = None \<or> point_y P = Some 0
   \<or> point_x Q = None \<or> point_x Q = Some 0 \<or> point_y Q = None \<or> point_y Q = Some 0 \<Longrightarrow>
   pointAdd_log P Q curve log s = (Inr infinity, s)"
  by (auto simp: pointAdd_log_def split: option.split)

lemma pointAdd_affine:
  assumes "x1 \<noteq> 0" "y1 \<noteq> 0" "x2 \<noteq> 0" "y2 \<noteq> 0"
  shows "pointAdd (affine x1 y1) (affine x2 y2) curve =
    (if x1 = x2 \<and> y1 \<noteq> y2 then Inr infinity
     else
       ebind
         (if x1 = x2 then
            ebind (mod_bigint (3 * x1 * x1 + curve_a curve) (curve_p curve)) (\<lambda>num.
            ebind (modInverse (2 * y1) (curve_p curve)) (\<lambda>den.
            mod_bigint (num * den) (curve_p curve)))
          else
            ebind (mod_bigint (y2 - y1) (curve_p curve)) (\<lambda>num.
            ebind (mod_bigint (x2 - x1) (curve_p curve)) (\<lambda>dx.
            ebind (modInverse dx (curve_p curve)) (\<lambda>den.
            mod_bigint (num * den) (curve_p curve)))))
         (\<lambda>lambda.
            ebind (mod_bigint (lambda * lambda - x1 - x2) (curve_p curve)) (\<lambda>x3.
            ebind (mod_bigint (lambda * (x1 - x3) - y1) (curve_p curve)) (\<lambda>y3.
            Inr (affine x3 y3)))))"
  using assms
  by (simp add: pointAdd_def pointAdd_log_def affine_def Let_def call_log_def ebind_def
      split: sum.split)

lemma Point_cases:
  obtains (inf) "isInfinity P"
  | (guard) "\<not> isInfinity P"
      "point_x P = None \<or> point_x P = Some 0 \<or> point_y P = None \<or> point_y P = Some 0"
  | (aff) x y where "P = affine x y" "x \<noteq> 0" "y \<noteq> 0"
proof (cases "isInfinity P")
  case True
  then show ?thesis by (rule inf)
next
  case False
  show ?thesis
  proof (cases "point_x P = None \<or> point_x P = Some 0 \<or> point_y P = None \<or> point_y P = Some 0")
    case True
    with False show ?thesis by (rule guard)
  next
    case g: False
    then obtain x y where "point_x P = Some x" "point_y P = Some y" "x \<noteq> 0" "y \<noteq> 0"
      by (cases "point_x P"; cases "point_y P") auto
    then have "P = affine x y" using False by (simp add: affine_def)
    then show ?thesis using \<open>x \<noteq> 0\<close> \<open>y \<noteq> 0\<close> by (rule aff)
  qed
qed

lemma in_field_affine: "in_field p (affine x y) = (0 \<le> x \<and> x < p \<and> 0 \<le> y \<and> y < p)"
  by (simp add: in_field_def affine_def)

lemma pointAdd_affine_in_field:
  assumes p: "0 < curve_p curve" and P: "\<not> isInfinity P" and Q: "\<not> isInfinity Q"
    and R: "pointAdd P Q curve = Inr R" and nR: "\<not> isInfinity R"
  shows "in_field (curve_p curve) R"
proof (cases P rule: Point_cases)
  case inf
  with P show ?thesis by simp
next
  case guard
  then have "pointAdd P Q curve = Inr infinity"
    using pointAdd_guard [OF P Q, of curve None "()"] by (auto simp: pointAdd_def)
  with R have "R = infinity" by simp
  with nR show ?thesis by (simp add: infinity_def)
next
  case Pa: (aff x1 y1)
  show ?thesis
  proof (cases Q rule: Point_cases)
    case inf
    with Q show ?thesis by simp
  next
    case guard
    then have "pointAdd P Q curve = Inr infinity"
      using pointAdd_guard [OF P Q, of curve None "()"] by (auto simp: pointAdd_def)
    with R have "R = infinity" by simp
    with nR show ?thesis by (simp add: infinity_def)
  next
    case Qa: (aff x2 y2)
    have "\<exists>x3 y3. R = affine (x3 mod curve_p curve) (y3 mod curve_p curve)"
      using R nR Pa Qa p
      by (auto simp: pointAdd_affine mod_bigint_pos infinity_def ebind_def
          split: if_splits sum.splits)
    then show ?thesis
      using p by (auto simp: in_field_affine)
  qed
qed

lemma pointAdd_reduced_or:
  assumes p: "0 < curve_p curve"
    and A: "reduced_or P0 (curve_p curve) A" and B: "reduced_or P0 (curve_p curve) B"
    and C: "pointAdd A B curve = Inr C"
  shows "reduced_or P0 (curve_p curve) C"
proof (cases "isInfinity A")
  case True
  with C B show ?thesis by (simp add: pointAdd_infinity_left)
next
  case nA: False
  show ?thesis
  proof (cases "isInfinity B")
    case True
    with nA C A show ?thesis by (simp add: pointAdd_infinity_right)
  next
    case False
    with pointAdd_affine_in_field [OF p nA False C] show ?thesis
      by (auto simp: reduced_or_def)
  qed
qed

lemma pointMultiply_loop_reduced_or:
  assumes p: "0 < curve_p curve"
  shows "reduced_or P0 (curve_p curve) R \<Longrightarrow> reduced_or P0 (curve_p curve) N \<Longrightarrow>
    fst (pointMultiply_loop cs e R N curve log s) = Inr R' \<Longrightarrow>
    reduced_or P0 (curve_p curve) R'"
proof (induction cs arbitrary: e R N s)
  case Nil
  then show ?case by simp
next
  case (Cons c cs)
  obtain R1 where R1: "(if c = CHR ''1'' then pointAdd R N curve else Inr R) = Inr R1"
    using Cons.prems(3) by (auto simp: Let_def split: sum.splits)
  obtain N1 where N1: "pointAdd N N curve = Inr N1"
    using Cons.prems(3) R1 by (auto simp: Let_def split: sum.splits)
  have iR1: "reduced_or P0 (curve_p curve) R1"
    using R1 Cons.prems(1,2) pointAdd_reduced_or [OF p, of P0 R N R1]
    by (auto split: if_splits)
  have iN1: "reduced_or P0 (curve_p curve) N1"
    using N1 Cons.prems(2) pointAdd_reduced_or [OF p, of P0 N N N1] by simp
  obtain s2 where "fst (pointMultiply_loop cs (Suc e) R1 N1 curve log s2) = Inr R'"
    using Cons.prems(3) R1 N1 by (auto simp: Let_def split: if_splits)
  from Cons.IH [OF iR1 iN1 this] show ?case .
qed

text \<open>
  C10, as stated, fails at the identity: \<open>pointAdd(\<infinity>, Q)\<close> returns \<open>Q\<close> as it was
  passed, and \<open>Q = (100, -5)\<close> is a non-infinity point outside \<open>[0, 11)\<close>.
\<close>

theorem results_in_field_counterexample:
  "pointAdd infinity (affine 100 (- 5)) TOY_CURVE = Inr (affine 100 (- 5))
   \<and> \<not> isInfinity (affine 100 (- 5))
   \<and> \<not> in_field (curve_p TOY_CURVE) (affine 100 (- 5))"
  by (simp add: pointAdd_infinity_left infinity_def affine_def in_field_def TOY_CURVE_def)

text \<open>
  C10, amended. On a curve with \<open>p > 0\<close>: a non-infinity point that \<open>pointAdd\<close> returns
  for two non-infinity arguments has both coordinates in \<open>[0, p)\<close>, whatever integers
  the coordinates of the arguments are; and a non-infinity point that
  \<open>pointMultiply(k, P)\<close> returns is \<open>P\<close> itself or has both coordinates in \<open>[0, p)\<close>.
\<close>

theorem results_in_field:
  assumes "0 < curve_p curve"
  shows "(\<not> isInfinity P \<and> \<not> isInfinity Q \<and> pointAdd P Q curve = Inr R \<and> \<not> isInfinity R
            \<longrightarrow> in_field (curve_p curve) R)
       \<and> (pointMultiply k P curve = Inr R' \<and> \<not> isInfinity R'
            \<longrightarrow> R' = P \<or> in_field (curve_p curve) R')"
proof (intro conjI impI)
  assume "\<not> isInfinity P \<and> \<not> isInfinity Q \<and> pointAdd P Q curve = Inr R \<and> \<not> isInfinity R"
  then show "in_field (curve_p curve) R"
    using pointAdd_affine_in_field [OF assms] by blast
next
  assume a: "pointMultiply k P curve = Inr R' \<and> \<not> isInfinity R'"
  have "reduced_or P (curve_p curve) infinity" "reduced_or P (curve_p curve) P"
    by (simp_all add: reduced_or_def infinity_def)
  from pointMultiply_loop_reduced_or [OF assms this, of "rev (toString k 2)" 0 None "()" R'] a
  show "R' = P \<or> in_field (curve_p curve) R'"
    by (simp add: pointMultiply_def pointMultiply_log_def Let_def reduced_or_def)
qed

theorem results_in_field_witness:
  "0 < curve_p TOY_CURVE
   \<and> pointAdd (affine 2 4) (affine 5 9) TOY_CURVE = Inr (affine 8 8) \<and> in_field 11 (affine 8 8)
   \<and> pointMultiply 2 (affine 2 4) TOY_CURVE = Inr (affine 5 9) \<and> in_field 11 (affine 5 9)"
  using results_in_field [of TOY_CURVE "affine 2 4" "affine 5 9" "affine 8 8" 2 "affine 5 9"]
    toy_add_example toy_multiply_2
  by (simp add: TOY_CURVE_def affine_def)

section \<open>The trace callback\<close>

lemma pointAdd_log_fst:
  "fst (pointAdd_log P Q curve log s) = fst (pointAdd_log P Q curve log' s')"
  by (simp add: pointAdd_log_def Let_def split: option.split sum.split prod.split)

lemma pointAdd_log_None: "snd (pointAdd_log P Q curve None s) = s"
  by (simp add: pointAdd_log_def Let_def call_log_def split: option.split sum.split prod.split)

lemma pointMultiply_loop_fst:
  "fst (pointMultiply_loop cs e R N curve log s) = fst (pointMultiply_loop cs e R N curve log' s')"
proof (induction cs arbitrary: e R N s s')
  case Nil
  show ?case by simp
next
  case (Cons c cs)
  show ?case
    using Cons.IH by (simp add: Let_def split: sum.split)
qed

text \<open>
  C8. \<open>pointAdd\<close> and \<open>pointMultiply\<close> return the same point, or throw the same
  exception, with a callback \<open>f\<close> as with none, for every input, every callback and
  every state the callback works on; so they do with any two callbacks \<open>f\<close> and \<open>g\<close>:
  what a callback makes of the strings reaches no result.
\<close>

theorem trace_is_observational:
  "fst (pointAdd_log P Q curve (Some f) s) = pointAdd P Q curve
   \<and> fst (pointMultiply_log k P curve (Some f) s) = pointMultiply k P curve
   \<and> fst (pointAdd_log P Q curve (Some f) s) = fst (pointAdd_log P Q curve (Some g) t)
   \<and> fst (pointMultiply_log k P curve (Some f) s) = fst (pointMultiply_log k P curve (Some g) t)"
proof (intro conjI)
  show "fst (pointAdd_log P Q curve (Some f) s) = pointAdd P Q curve"
    unfolding pointAdd_def by (rule pointAdd_log_fst)
  show "fst (pointMultiply_log k P curve (Some f) s) = pointMultiply k P curve"
    unfolding pointMultiply_def pointMultiply_log_def Let_def by (rule pointMultiply_loop_fst)
  show "fst (pointAdd_log P Q curve (Some f) s) = fst (pointAdd_log P Q curve (Some g) t)"
    by (rule pointAdd_log_fst)
  show "fst (pointMultiply_log k P curve (Some f) s) = fst (pointMultiply_log k P curve (Some g) t)"
    unfolding pointMultiply_log_def Let_def by (rule pointMultiply_loop_fst)
qed

section \<open>Point addition and the chord/tangent law\<close>

lemma is_prime_coprime:
  assumes p: "is_prime p" and d: "0 < d" "d < p"
  shows "gcd d p = 1"
proof (rule ccontr)
  assume n: "gcd d p \<noteq> 1"
  have pos: "0 < gcd d p" using d by simp
  have "gcd d p dvd d" by simp
  then have le: "gcd d p \<le> d" using d by (simp add: zdvd_imp_le)
  have "2 \<le> gcd d p" using n pos by linarith
  moreover have "gcd d p \<le> p - 1" using le d by linarith
  ultimately have "gcd d p \<in> set [2..p - 1]" by simp
  with p have "\<not> gcd d p dvd p" unfolding is_prime_def list_all_iff by blast
  then show False by simp
qed

lemma find_unique:
  "x \<in> set xs \<Longrightarrow> P x \<Longrightarrow> \<forall>y\<in>set xs. P y \<longrightarrow> y = x \<Longrightarrow> List.find P xs = Some x"
proof (induction xs)
  case Nil
  then show ?case by simp
next
  case (Cons a xs)
  show ?case
  proof (cases "P a")
    case True
    with Cons.prems(3) have "a = x" by simp
    with True show ?thesis by simp
  next
    case False
    with Cons.prems have "x \<in> set xs" by auto
    from Cons.IH [OF this Cons.prems(2)] Cons.prems(3) False show ?thesis by simp
  qed
qed

lemma field_inverse_modInverse:
  assumes p: "1 < p" and d: "0 \<le> d" and g: "gcd d p = 1"
  shows "\<exists>i. modInverse d p = Inr i \<and> field_inverse d p = Some i \<and> 0 \<le> i \<and> i < p"
proof -
  from modInverse_nonneg_coprime [OF d p g]
  obtain i where i: "modInverse d p = Inr i" "0 \<le> i" "i < p" "(d * i) mod p = 1" by blast
  have "List.find (\<lambda>j. (d * j) mod p = 1) [0..p - 1] = Some i"
  proof (rule find_unique)
    show "i \<in> set [0..p - 1]" using i by simp
    show "(d * i) mod p = 1" by (rule i)
    show "\<forall>y\<in>set [0..p - 1]. (d * y) mod p = 1 \<longrightarrow> y = i"
    proof (intro ballI impI)
      fix y assume y: "y \<in> set [0..p - 1]" "(d * y) mod p = 1"
      then have "0 \<le> y" "y < p" by simp_all
      then show "y = i"
        by (rule inverse_mod_unique [OF p _ _ y(2) i(2,3,4)])
    qed
  qed
  with i show ?thesis by (simp add: field_inverse_def)
qed

lemma field_inverse_mod: "field_inverse (d mod p) p = field_inverse d p"
  unfolding field_inverse_def by (simp only: mod_mult_left_eq)


lemma chord_tangent_affine:
  "chord_tangent curve (affine x1 y1) (affine x2 y2) =
     (case (if x1 = x2 \<and> y1 = y2
            then map_option (\<lambda>i. ((3 * x1\<^sup>2 + curve_a curve) * i) mod curve_p curve)
                   (field_inverse (2 * y1) (curve_p curve))
            else map_option (\<lambda>i. ((y2 - y1) * i) mod curve_p curve)
                   (field_inverse (x2 - x1) (curve_p curve))) of
        None \<Rightarrow> None
      | Some lambda \<Rightarrow>
          Some (affine ((lambda\<^sup>2 - x1 - x2) mod curve_p curve)
                  ((lambda * (x1 - (lambda\<^sup>2 - x1 - x2) mod curve_p curve) - y1) mod curve_p curve)))"
  by (simp add: chord_tangent_def affine_def Let_def split: option.split)

lemma pointAdd_chord_tangent:
  assumes p: "1 < curve_p curve"
    and nz: "x1 \<noteq> 0" "y1 \<noteq> 0" "x2 \<noteq> 0" "y2 \<noteq> 0"
    and y1: "0 \<le> y1"
    and nv: "\<not> (x1 = x2 \<and> y1 \<noteq> y2)"
    and cop: "if x1 = x2 then gcd (2 * y1) (curve_p curve) = 1
              else gcd (x2 - x1) (curve_p curve) = 1"
  shows "\<exists>R. pointAdd (affine x1 y1) (affine x2 y2) curve = Inr R
            \<and> chord_tangent curve (affine x1 y1) (affine x2 y2) = Some R"
proof (cases "x1 = x2")
  case True
  with nv have y: "y1 = y2" by simp
  from cop True have g: "gcd (2 * y1) (curve_p curve) = 1" by simp
  from field_inverse_modInverse [OF p _ g] y1
  obtain i where i: "modInverse (2 * y1) (curve_p curve) = Inr i"
    "field_inverse (2 * y1) (curve_p curve) = Some i" by auto
  have sq: "3 * x2 * x2 = 3 * x2\<^sup>2" by (simp add: power2_eq_square)
  show ?thesis
    using p True y nz i
    by (simp add: pointAdd_affine chord_tangent_affine mod_bigint_pos mod_mult_left_eq
        sq power2_eq_square [of "_ mod _"])
next
  case False
  with cop have "gcd (x2 - x1) (curve_p curve) = 1" by simp
  then have g: "gcd ((x2 - x1) mod curve_p curve) (curve_p curve) = 1"
    by (simp add: gcd.commute [of _ "curve_p curve"] gcd_red_int [symmetric])
  have nn: "0 \<le> (x2 - x1) mod curve_p curve" using p by simp
  from field_inverse_modInverse [OF p nn g]
  obtain i where i: "modInverse ((x2 - x1) mod curve_p curve) (curve_p curve) = Inr i"
    "field_inverse (x2 - x1) (curve_p curve) = Some i"
    by (auto simp: field_inverse_mod)
  show ?thesis
    using p False nz i
    by (simp add: pointAdd_affine chord_tangent_affine mod_bigint_pos mod_mult_left_eq
        power2_eq_square [of "_ mod _"])
qed


lemma is_prime_coprime_product:
  assumes p: "is_prime p" "2 < p" and y: "0 < y" "y < p"
  shows "gcd (2 * y) p = 1"
proof -
  have "coprime 2 p" using is_prime_coprime [OF p(1), of 2] p(2) by (simp add: coprime_iff_gcd_eq_1)
  moreover have "coprime y p" using is_prime_coprime [OF p(1) y] by (simp add: coprime_iff_gcd_eq_1)
  ultimately have "coprime (2 * y) p" by simp
  then show ?thesis by (simp add: coprime_iff_gcd_eq_1)
qed

lemma is_prime_coprime_diff:
  assumes p: "is_prime p" and x: "0 \<le> x1" "x1 < p" "0 \<le> x2" "x2 < p" "x1 \<noteq> x2"
  shows "gcd (x2 - x1) p = 1"
proof (cases "x1 < x2")
  case True
  with x show ?thesis by (intro is_prime_coprime [OF p]) simp_all
next
  case False
  with x have "gcd (x1 - x2) p = 1" by (intro is_prime_coprime [OF p]) simp_all
  moreover have "gcd (x2 - x1) p = gcd (- (x1 - x2)) p" by simp
  ultimately show ?thesis by (simp only: gcd_neg1_int)
qed

lemma chord_tangent_affine_result:
  "chord_tangent curve P Q = Some R \<Longrightarrow> \<not> isInfinity R"
  by (auto simp: chord_tangent_def Let_def affine_def split: option.splits)

lemma pointAdd_chord_tangent_prime:
  assumes p: "is_prime (curve_p curve)" "2 < curve_p curve"
    and P: "in_field (curve_p curve) (affine x1 y1)" and Q: "in_field (curve_p curve) (affine x2 y2)"
    and nz: "x1 \<noteq> 0" "y1 \<noteq> 0" "x2 \<noteq> 0" "y2 \<noteq> 0"
    and nv: "\<not> (x1 = x2 \<and> y1 \<noteq> y2)"
  shows "\<exists>R. pointAdd (affine x1 y1) (affine x2 y2) curve = Inr R
            \<and> chord_tangent curve (affine x1 y1) (affine x2 y2) = Some R
            \<and> in_field (curve_p curve) R"
proof -
  from P Q have r: "0 \<le> x1" "x1 < curve_p curve" "0 \<le> y1" "y1 < curve_p curve"
    "0 \<le> x2" "x2 < curve_p curve"
    by (simp_all add: in_field_affine)
  have cop: "if x1 = x2 then gcd (2 * y1) (curve_p curve) = 1
             else gcd (x2 - x1) (curve_p curve) = 1"
    using is_prime_coprime_product [OF p, of y1] is_prime_coprime_diff [OF p(1), of x1 x2] r nz
    by simp
  from pointAdd_chord_tangent [OF _ nz r(3) nv cop] p(2)
  obtain R where R: "pointAdd (affine x1 y1) (affine x2 y2) curve = Inr R"
    "chord_tangent curve (affine x1 y1) (affine x2 y2) = Some R" by auto
  have "\<not> isInfinity R"
    using R(2) by (rule chord_tangent_affine_result)
  from pointAdd_affine_in_field [OF _ _ _ R(1) this] p(2) R show ?thesis
    by (simp add: affine_def)
qed

lemma is_prime_11: "is_prime 11"
  by (simp add: is_prime_def upto.simps)

section \<open>The group law on the toy curve\<close>

lemma less_13: "i < (13::nat) \<Longrightarrow>
  i = 0 \<or> i = 1 \<or> i = 2 \<or> i = 3 \<or> i = 4 \<or> i = 5 \<or> i = 6 \<or> i = 7 \<or> i = 8 \<or> i = 9
  \<or> i = 10 \<or> i = 11 \<or> i = 12"
  by arith

lemma toy_pt_simps:
  "toy_pt 0 = infinity" "toy_pt 1 = affine 2 4" "toy_pt (Suc 0) = affine 2 4"
  "toy_pt (Suc (Suc 0)) = affine 5 9" "toy_pt 2 = affine 5 9" "toy_pt 3 = affine 8 8"
  "toy_pt 4 = affine 10 9" "toy_pt 5 = affine 3 5" "toy_pt 6 = affine 7 2" "toy_pt 7 = affine 7 9"
  "toy_pt 8 = affine 3 6" "toy_pt 9 = affine 10 2" "toy_pt 10 = affine 8 3"
  "toy_pt 11 = affine 5 2" "toy_pt 12 = affine 2 7"
  by (simp_all add: toy_pt_def toy_points_def numeral_2_eq_2 [symmetric])

lemma toy_pt_mod: "toy_pt (i mod 13) = toy_pt i"
  by (simp add: toy_pt_def)

lemma toy_inverses:
  "modInverse 1 11 = Inr 1" "modInverse 2 11 = Inr 6" "modInverse 3 11 = Inr 4"
  "modInverse 4 11 = Inr 3" "modInverse 5 11 = Inr 9" "modInverse 6 11 = Inr 2"
  "modInverse 7 11 = Inr 8" "modInverse 8 11 = Inr 7" "modInverse 9 11 = Inr 5"
  "modInverse 10 11 = Inr 10" "modInverse 12 11 = Inr 1" "modInverse 14 11 = Inr 4"
  "modInverse 16 11 = Inr 9" "modInverse 18 11 = Inr 8" "modInverse 20 11 = Inr 5"
  by (simp_all add: modInverse_def modInverse_loop.simps mod_bigint_pos)

lemma toy_params: "curve_p TOY_CURVE = 11" "curve_a TOY_CURVE = 1" "curve_G TOY_CURVE = affine 2 4"
  by (simp_all add: TOY_CURVE_def)

lemma affine_eq: "affine x y = affine x' y' \<longleftrightarrow> x = x' \<and> y = y'"
  "affine x y \<noteq> infinity" "\<not> isInfinity (affine x y)" "isInfinity infinity"
  by (auto simp: affine_def infinity_def)

lemma toy_add_table:
  assumes "i < 13" "j < 13"
  shows "pointAdd (toy_pt i) (toy_pt j) TOY_CURVE = Inr (toy_pt ((i + j) mod 13))"
  using less_13 [OF assms(1)] less_13 [OF assms(2)]
  apply (elim disjE)
  apply (simp_all add: toy_pt_simps pointAdd_infinity_left pointAdd_infinity_right affine_eq
        pointAdd_affine toy_params toy_inverses mod_bigint_pos)
  done


lemma toy_add: "pointAdd (toy_pt i) (toy_pt j) TOY_CURVE = Inr (toy_pt (i + j))"
proof -
  have "pointAdd (toy_pt (i mod 13)) (toy_pt (j mod 13)) TOY_CURVE
      = Inr (toy_pt ((i mod 13 + j mod 13) mod 13))"
    by (rule toy_add_table) simp_all
  then show ?thesis
    by (simp add: toy_pt_mod mod_add_eq)
qed

lemma digit_char_bit: "digit_char (n mod 2) = CHR ''1'' \<longleftrightarrow> n mod 2 = 1"
proof -
  have "n mod 2 = 0 \<or> n mod 2 = 1" by arith
  then show ?thesis by (auto simp: digit_char_def)
qed

lemma rev_digits_radix_2:
  "rev (digits_radix 2 n) =
     (if n < 2 then [digit_char n] else digit_char (n mod 2) # rev (digits_radix 2 (n div 2)))"
  by (simp add: digits_radix.simps [of 2 n])

lemma toy_loop:
  "fst (pointMultiply_loop (rev (digits_radix 2 n)) e (toy_pt r) (toy_pt m) TOY_CURVE log s)
     = Inr (toy_pt (r + n * m))"
proof (induction n arbitrary: e r m s rule: less_induct)
  case (less n)
  have bit: "(if digit_char (n mod 2) = CHR ''1'' then pointAdd (toy_pt r) (toy_pt m) TOY_CURVE
              else Inr (toy_pt r)) = Inr (toy_pt (r + (n mod 2) * m))"
  proof -
    have "n mod 2 = 0 \<or> n mod 2 = 1" by arith
    then show ?thesis by (auto simp: digit_char_bit toy_add)
  qed
  show ?case
  proof (cases "n < 2")
    case True
    then have "n mod 2 = n" by simp
    with bit True show ?thesis
      by (simp add: rev_digits_radix_2 [of n] toy_add Let_def)
  next
    case False
    then have "n div 2 < n" by simp
    from less.IH [OF this]
    have "\<And>s' e'. fst (pointMultiply_loop (rev (digits_radix 2 (n div 2))) e'
        (toy_pt (r + (n mod 2) * m)) (toy_pt (m + m)) TOY_CURVE log s')
        = Inr (toy_pt (r + (n mod 2) * m + (n div 2) * (m + m)))" .
    moreover have "r + (n mod 2) * m + (n div 2) * (m + m) = r + n * m"
    proof -
      define q b where "q = n div 2" and "b = n mod 2"
      have n: "n = b + 2 * q" by (simp add: q_def b_def)
      have "b * m + q * (m + m) = (b + 2 * q) * m"
        by (simp add: algebra_simps)
      then have "r + b * m + q * (m + m) = r + n * m"
        by (simp only: n add.assoc)
      then show ?thesis by (simp only: q_def b_def)
    qed
    ultimately show ?thesis
      using False bit by (simp add: rev_digits_radix_2 [of n] toy_add Let_def)
  qed
qed

lemma toy_multiply: "pointMultiply (int n) (toy_pt i) TOY_CURVE = Inr (toy_pt (n * i))"
  using toy_loop [of n 0 0 i None "()"]
  by (simp add: pointMultiply_def pointMultiply_log_def toString_def Let_def call_log_def
      toy_pt_simps(1) [symmetric])


lemma less_11: "0 \<le> x \<Longrightarrow> x < (11::int) \<Longrightarrow>
  x = 0 \<or> x = 1 \<or> x = 2 \<or> x = 3 \<or> x = 4 \<or> x = 5 \<or> x = 6 \<or> x = 7 \<or> x = 8 \<or> x = 9 \<or> x = 10"
  by arith

lemma toy_curve_points:
  assumes "on_curve TOY_CURVE P" "\<not> isInfinity P"
  shows "\<exists>i<13. P = toy_pt i"
proof -
  from assms obtain x y where P: "P = affine x y"
    and r: "0 \<le> x" "x < 11" "0 \<le> y" "y < 11"
    and e: "(y * y) mod 11 = (x ^ 3 + x + 6) mod 11"
    by (cases P) (auto simp: on_curve_def in_field_def affine_def TOY_CURVE_def split: option.splits)
  have "affine x y \<in> set toy_points"
    using less_11 [OF r(1,2)] less_11 [OF r(3,4)] e
    apply (elim disjE)
    apply (simp_all add: toy_points_def affine_eq)
    done
  then obtain i where "i < length toy_points" "toy_points ! i = affine x y"
    by (auto simp: in_set_conv_nth)
  then have "i < 13" "toy_pt i = P"
    using P by (simp_all add: toy_pt_def toy_points_def)
  then show ?thesis by auto
qed


lemma toy_negate:
  assumes "0 < s" "s < 13"
  shows "\<exists>x y. toy_pt s = affine x y \<and> affine x ((- y) mod 11) = toy_pt (13 - s)"
  using less_13 [OF assms(2)] assms(1)
  apply (elim disjE)
  apply (simp_all add: toy_pt_simps affine_eq)
  done

lemma toy_pt_affine: "0 < i \<Longrightarrow> i < 13 \<Longrightarrow> \<exists>x y. toy_pt i = affine x y"
  using toy_negate [of i] by blast

lemma toy_pointMultiply_additive:
  assumes j: "0 \<le> j" and k: "0 \<le> k"
    and P: "P = infinity \<or> (\<not> isInfinity P \<and> on_curve TOY_CURVE P)"
  shows "\<exists>A B. pointMultiply j P TOY_CURVE = Inr A \<and> pointMultiply k P TOY_CURVE = Inr B
           \<and> pointMultiply (j + k) P TOY_CURVE = pointAdd A B TOY_CURVE"
proof -
  have "\<exists>i. P = toy_pt i"
  proof (cases "P = infinity")
    case True
    then show ?thesis using toy_pt_simps(1) by metis
  next
    case False
    with P toy_curve_points [of P] show ?thesis by blast
  qed
  then obtain i where i: "P = toy_pt i" ..
  have "pointMultiply (int (nat j)) P TOY_CURVE = Inr (toy_pt (nat j * i))"
    "pointMultiply (int (nat k)) P TOY_CURVE = Inr (toy_pt (nat k * i))"
    "pointMultiply (int (nat j + nat k)) P TOY_CURVE = Inr (toy_pt ((nat j + nat k) * i))"
    unfolding i by (rule toy_multiply)+
  moreover have "pointAdd (toy_pt (nat j * i)) (toy_pt (nat k * i)) TOY_CURVE
      = Inr (toy_pt ((nat j + nat k) * i))"
    by (simp add: toy_add distrib_right)
  ultimately show ?thesis using j k by simp
qed

lemma toy_elgamal_round_trip:
  assumes d: "0 \<le> privKey st" and k: "0 \<le> randomK st"
    and S: "(privKey st * randomK st) mod 13 \<noteq> 0"
    and Pm: "embeddedPoint st = Some Pm" "on_curve TOY_CURVE Pm" "\<not> isInfinity Pm"
  shows "\<exists>st1 st2. handleEncrypt TOY_CURVE (generateKeys TOY_CURVE st) = Inr st1
           \<and> handleDecrypt TOY_CURVE st1 = Inr st2 \<and> decryptedPoint st2 = Some Pm"
proof -
  define d' k' where "d' = nat (privKey st)" and "k' = nat (randomK st)"
  have dk: "privKey st = int d'" "randomK st = int k'"
    using d k by (simp_all add: d'_def k'_def)
  from toy_curve_points [OF Pm(2,3)] obtain m where m: "m < 13" "Pm = toy_pt m" by blast
  define s where "s = (d' * k') mod 13"
  have "int ((d' * k') mod 13) = (privKey st * randomK st) mod 13"
    by (simp add: dk zmod_int)
  with S have s: "0 < s" "s < 13" by (simp_all add: s_def)
  from toy_negate [OF s] obtain x y where xy: "toy_pt s = affine x y"
    "affine x ((- y) mod 11) = toy_pt (13 - s)" by blast
  have Sd: "toy_pt (d' * k') = affine x y"
    using xy(1) toy_pt_mod [of "d' * k'"] by (simp add: s_def)
  define st0 where "st0 = st\<lparr>pubKey := Some (toy_pt d')\<rparr>"
  have keys: "generateKeys TOY_CURVE st = st0"
    using toy_multiply [of d' 1]
    by (simp add: generateKeys_def dk toy_params toy_pt_simps(2) [symmetric] st0_def)
  have st0: "embeddedPoint st0 = Some (toy_pt m)" "pubKey st0 = Some (toy_pt d')"
    "randomK st0 = int k'"
    by (simp_all add: st0_def Pm(1) m(2) dk)
  define st1 where "st1 = st0\<lparr>cipherC1 := Some (toy_pt k'),
    cipherC2 := Some (toy_pt (m + k' * d'))\<rparr>"
  have c1: "pointMultiply (int k') (affine 2 4) TOY_CURVE = Inr (toy_pt k')"
    using toy_multiply [of k' 1] by (simp add: toy_pt_simps)
  have sh: "pointMultiply (int k') (toy_pt d') TOY_CURVE = Inr (toy_pt (k' * d'))"
    by (rule toy_multiply)
  have c2: "pointAdd (toy_pt m) (toy_pt (k' * d')) TOY_CURVE = Inr (toy_pt (m + k' * d'))"
    by (rule toy_add)
  have enc: "handleEncrypt TOY_CURVE (generateKeys TOY_CURVE st) = Inr st1"
    unfolding keys handleEncrypt_def st0 by (simp add: toy_params c1 sh c2 st1_def)
  have "(m + t + (13 - t mod 13)) mod 13 = m mod 13" for t :: nat
  proof -
    define q r where "q = t div 13" and "r = t mod 13"
    have "t = 13 * q + r" "r < 13" by (simp_all add: q_def r_def)
    then have "m + t + (13 - r) = m + 13 * (q + 1)" by simp
    then have "(m + t + (13 - r)) mod 13 = (m + 13 * (q + 1)) mod 13" by (rule arg_cong)
    also have "\<dots> = m mod 13" by (rule mod_mult_self2)
    finally show ?thesis by (simp only: r_def)
  qed
  from this [of "k' * d'"] have cancel: "toy_pt (m + k' * d' + (13 - s)) = toy_pt m"
    by (simp add: toy_pt_def s_def mult.commute)
  have mul: "pointMultiply (int d') (toy_pt k') TOY_CURVE = Inr (affine x y)"
    using toy_multiply [of d' k'] Sd by simp
  have neg: "\<lparr>point_x = point_x (affine x y), point_y = Some ((- y) mod 11),
      isInfinity = isInfinity (affine x y)\<rparr> = toy_pt (13 - s)"
    using xy(2) by (simp add: affine_def)
  have add: "pointAdd (toy_pt (m + k' * d')) (toy_pt (13 - s)) TOY_CURVE = Inr Pm"
    using toy_add [of "m + k' * d'" "13 - s"] cancel m(2) by simp
  have "0 < m" using m Pm(3) by (cases "m = 0") (simp_all add: toy_pt_simps affine_eq)
  from toy_pt_affine [OF this m(1)] obtain x' y' where Pa: "Pm = affine x' y'"
    using m(2) by auto
  have un: "unembedMessageKoblitz Pm 20 = Inr (tdiv x' 20)"
    by (simp add: unembedMessageKoblitz_def Pa affine_def bigint_div_def)
  have y: "point_y (affine x y) = Some y" by (simp add: affine_def)
  have st1: "cipherC1 st1 = Some (toy_pt k')" "cipherC2 st1 = Some (toy_pt (m + k' * d'))"
    "privKey st1 = int d'"
    by (simp_all add: st1_def st0_def dk)
  have "\<exists>st2. handleDecrypt TOY_CURVE st1 = Inr st2 \<and> decryptedPoint st2 = Some Pm"
    unfolding handleDecrypt_def st1
    by (cases "embeddingMethod st1") (simp_all add: mul y toy_params mod_bigint_pos neg add un)
  with enc show ?thesis by blast
qed

section \<open>Inputs on which the code leaves the specification\<close>

subsection \<open>A zero coordinate\<close>

lemma upto_10: "[0..(10::int)] = [0, 1, 2, 3, 4, 5, 6, 7, 8, 9, 10]"
  by (simp add: upto.simps)

lemma curve_G_small: "curve_G SMALL_CURVE = affine 2 2" "curve_p SMALL_CURVE = 11"
  by (simp_all add: SMALL_CURVE_def)

lemma small_curve_points:
  "on_curve SMALL_CURVE (affine 2 2)" "on_curve SMALL_CURVE (affine 2 9)"
  "on_curve SMALL_CURVE (affine 0 7)"
  by (simp_all add: on_curve_def in_field_def affine_def SMALL_CURVE_def)

lemma small_curve_multiples:
  "pointMultiply 1 (affine 2 2) SMALL_CURVE = Inr (affine 2 2)"
  "pointMultiply 2 (affine 2 2) SMALL_CURVE = Inr (affine 10 5)"
  "pointMultiply 3 (affine 2 2) SMALL_CURVE = Inr (affine 0 7)"
  "pointMultiply 4 (affine 2 2) SMALL_CURVE = Inr (affine 7 5)"
  "pointMultiply 2 (affine 10 5) SMALL_CURVE = Inr (affine 7 5)"
  by (simp_all add: eval_pointMultiply eval_pointAdd SMALL_CURVE_def)

lemma small_curve_guard:
  "pointAdd (affine 2 2) (affine 0 7) SMALL_CURVE = Inr infinity"
  "pointAdd (affine 0 7) (affine 7 6) SMALL_CURVE = Inr infinity"
  by (simp_all add: pointAdd_def pointAdd_log_def affine_def)

lemma small_curve_add: "pointAdd (affine 2 9) (affine 7 5) SMALL_CURVE = Inr (affine 0 7)"
  by (simp add: eval_pointAdd SMALL_CURVE_def)

text \<open>
  C2 on the code. On \<open>y\<^sup>2 = x\<^sup>3 + x + 5 (mod 11)\<close> the points \<open>(0, 7)\<close> and \<open>(2, 2)\<close> are on
  the curve, differ and have different \<open>x\<close>; the chord law gives \<open>(7, 5)\<close>, and
  \<open>pointAdd\<close> returns the point at infinity, at the guard that takes \<open>0n\<close> for \<open>null\<close>.
\<close>

theorem pointAdd_zero_x_fails:
  "on_curve SMALL_CURVE (affine 0 7) \<and> on_curve SMALL_CURVE (affine 2 2)
   \<and> chord_tangent SMALL_CURVE (affine 0 7) (affine 2 2) = Some (affine 7 5)
   \<and> pointAdd (affine 0 7) (affine 2 2) SMALL_CURVE = Inr infinity"
  by (simp add: on_curve_def in_field_def affine_def SMALL_CURVE_def chord_tangent_def
      field_inverse_def upto_10 pointAdd_def pointAdd_log_def)

text \<open>
  C3 on the code. On the same curve, with \<open>P = G = (2, 2)\<close>: \<open>pointMultiply(1 + 3, P)\<close>
  is \<open>(7, 5)\<close>, and \<open>pointAdd(pointMultiply(1, P), pointMultiply(3, P))\<close> is
  \<open>pointAdd((2, 2), (0, 7))\<close>, the point at infinity.
\<close>

theorem pointMultiply_not_additive:
  "on_curve SMALL_CURVE (affine 2 2)
   \<and> pointMultiply (1 + 3) (affine 2 2) SMALL_CURVE = Inr (affine 7 5)
   \<and> pointMultiply 1 (affine 2 2) SMALL_CURVE = Inr (affine 2 2)
   \<and> pointMultiply 3 (affine 2 2) SMALL_CURVE = Inr (affine 0 7)
   \<and> pointAdd (affine 2 2) (affine 0 7) SMALL_CURVE = Inr infinity"
  using small_curve_multiples small_curve_points small_curve_guard by simp

text \<open>
  C1 on the code. On the same curve, with private key \<open>d = 2\<close>, ephemeral \<open>k = 2\<close> and
  the message point \<open>Pm = (2, 9)\<close>: the public key is \<open>(10, 5)\<close>, the ciphertext is
  \<open>C1 = (10, 5)\<close>, \<open>C2 = (0, 7)\<close>, and decryption computes \<open>S = (7, 5)\<close>,
  \<open>-S = (7, 6)\<close> and \<open>pointAdd(C2, -S)\<close>, the point at infinity, not \<open>Pm\<close>.
\<close>

theorem elgamal_round_trip_fails:
  "on_curve SMALL_CURVE (affine 2 9)
   \<and> generateKeys SMALL_CURVE
        (initial_state\<lparr>privKey := 2, randomK := 2, embeddingMethod := direct,
           embeddedPoint := Some (affine 2 9)\<rparr>)
      = initial_state\<lparr>privKey := 2, randomK := 2, embeddingMethod := direct,
           embeddedPoint := Some (affine 2 9), pubKey := Some (affine 10 5)\<rparr>
   \<and> handleEncrypt SMALL_CURVE
        (initial_state\<lparr>privKey := 2, randomK := 2, embeddingMethod := direct,
           embeddedPoint := Some (affine 2 9), pubKey := Some (affine 10 5)\<rparr>)
      = Inr (initial_state\<lparr>privKey := 2, randomK := 2, embeddingMethod := direct,
           embeddedPoint := Some (affine 2 9), pubKey := Some (affine 10 5),
           cipherC1 := Some (affine 10 5), cipherC2 := Some (affine 0 7)\<rparr>)
   \<and> handleDecrypt SMALL_CURVE
        (initial_state\<lparr>privKey := 2, randomK := 2, embeddingMethod := direct,
           embeddedPoint := Some (affine 2 9), pubKey := Some (affine 10 5),
           cipherC1 := Some (affine 10 5), cipherC2 := Some (affine 0 7)\<rparr>)
      = Inr (initial_state\<lparr>privKey := 2, randomK := 2, embeddingMethod := direct,
           embeddedPoint := Some (affine 2 9), pubKey := Some (affine 10 5),
           cipherC1 := Some (affine 10 5), cipherC2 := Some (affine 0 7),
           decryptedPoint := Some infinity, decryptedMsg := []\<rparr>)"
proof -
  have ny: "point_y (affine 7 5) = Some 5" "point_x (affine 7 5) = Some 7"
    "isInfinity (affine 7 5) = False" "point_x infinity = None"
    by (simp_all add: affine_def infinity_def)
  have neg: "\<lparr>point_x = Some 7, point_y = Some 6, isInfinity = False\<rparr> = affine 7 6"
    by (simp add: affine_def)
  show ?thesis
    using small_curve_multiples small_curve_points small_curve_guard small_curve_add
    by (simp add: generateKeys_def handleEncrypt_def handleDecrypt_def initial_state_def
        curve_G_small ny neg mod_bigint_pos)
qed

subsection \<open>The square root of zero\<close>

text \<open>
  C5 on the code. \<open>5\<close> is a prime that is not \<open>3\<close> modulo \<open>4\<close>, and \<open>0\<close> is a square root
  of \<open>0\<close>; the search of \<open>modSqrt\<close> starts at \<open>1\<close> and returns \<open>null\<close>. On the other
  path, for the prime \<open>11\<close>, \<open>modSqrt\<close> returns the root \<open>0\<close>.
\<close>

theorem modSqrt_misses_zero:
  "modSqrt 0 5 = Inr None \<and> (0 * 0) mod 5 = (0::int) mod 5 \<and> modSqrt 0 11 = Inr (Some 0)"
  by (simp add: modSqrt_def mod_bigint_pos modSqrt_loop.simps modPow_def modPow_loop.simps)

subsection \<open>The inverse of a negative number\<close>

text \<open>
  C6 on the code. \<open>gcd(-1, 5) = 1\<close> and \<open>4\<close> is the inverse of \<open>-1\<close> modulo \<open>5\<close>, but
  \<open>modInverse(-1, 5)\<close> throws: with truncating division the loop ends with
  \<open>old_r = -1\<close>, which the test \<open>old_r !== 1n\<close> rejects.
\<close>

theorem modInverse_negative_fails:
  "modInverse (- 1) 5 = Inl NoInverseError \<and> gcd (- 1) (5::int) = 1 \<and> (- 1 * 4) mod 5 = (1::int)"
  by (simp add: modInverse_def modInverse_loop.simps tdiv_def)

lemma modInverse_examples: "modInverse 2 11 = Inr 6" "modInverse 0 11 = Inl NoInverseError"
  by (simp_all add: modInverse_def modInverse_loop.simps mod_bigint_pos)

subsection \<open>A ciphertext with the point at infinity\<close>

lemma handleDecrypt_no_y:
  "cipherC1 st = Some C1 \<Longrightarrow> cipherC2 st = Some C2 \<Longrightarrow>
   pointMultiply (privKey st) C1 curve = Inr S \<Longrightarrow> point_y S = None \<Longrightarrow>
   handleDecrypt curve st = Inl TypeError"
  by (simp add: handleDecrypt_def)

lemma pointMultiply_15_infinity: "pointMultiply 15 infinity TOY_CURVE = Inr infinity"
  by (simp add: eval_pointMultiply pointAdd_def pointAdd_log_def infinity_def)

text \<open>
  C7 on the code. With \<open>C1\<close> the point at infinity, the shared secret \<open>S = d C1\<close> is the
  point at infinity, and \<open>handleDecrypt\<close> ends in the \<open>TypeError\<close> of \<open>mod(-null, p)\<close>,
  which nothing catches; no error of the engine's own is raised.
\<close>

theorem handleDecrypt_infinity_TypeError:
  "handleDecrypt TOY_CURVE (initial_state\<lparr>cipherC1 := Some infinity, cipherC2 := Some (affine 2 4)\<rparr>)
     = Inl TypeError"
  using pointMultiply_15_infinity
  by (simp add: handleDecrypt_def initial_state_def infinity_def)

end
